theory Spec2Isabelle
  imports Complex_Main
begin

section \<open>Numbers, references and graph records\<close>

text \<open>
  A JavaScript number is modelled as an exact real extended with the three special
  values the algorithms can produce or compare against: \<open>Infinity\<close>, \<open>-Infinity\<close>
  and \<open>NaN\<close>. Rounding of finite sums is not modelled. An edge weight is a finite number.
\<close>

datatype jsnum = Fin real | PInf | NInf | NaN

fun js_add :: "jsnum \<Rightarrow> jsnum \<Rightarrow> jsnum" where
  "js_add (Fin a) (Fin b) = Fin (a + b)"
| "js_add (Fin a) PInf = PInf"
| "js_add (Fin a) NInf = NInf"
| "js_add PInf (Fin b) = PInf"
| "js_add PInf PInf = PInf"
| "js_add PInf NInf = NaN"
| "js_add NInf (Fin b) = NInf"
| "js_add NInf NInf = NInf"
| "js_add NInf PInf = NaN"
| "js_add NaN y = NaN"
| "js_add x NaN = NaN"

fun js_neg :: "jsnum \<Rightarrow> jsnum" where
  "js_neg (Fin a) = Fin (- a)"
| "js_neg PInf = NInf"
| "js_neg NInf = PInf"
| "js_neg NaN = NaN"

definition js_sub :: "jsnum \<Rightarrow> jsnum \<Rightarrow> jsnum" where
  "js_sub a b = js_add a (js_neg b)"

text \<open>The relational operator \<open><\<close>: any comparison with \<open>NaN\<close> is false.\<close>

fun js_lt :: "jsnum \<Rightarrow> jsnum \<Rightarrow> bool" where
  "js_lt (Fin a) (Fin b) = (a < b)"
| "js_lt (Fin a) PInf = True"
| "js_lt NInf (Fin b) = True"
| "js_lt NInf PInf = True"
| "js_lt x y = False"

definition js_le :: "jsnum \<Rightarrow> jsnum \<Rightarrow> bool" where
  "js_le a b = (a = b \<or> js_lt a b)"

text \<open>
  Reading a key that an object does not have gives \<open>undefined\<close> (\<open>None\<close>); used as a
  number, \<open>undefined\<close> is \<open>NaN\<close>.
\<close>

definition toNumber :: "jsnum option \<Rightarrow> jsnum" where
  "toNumber v = (case v of None \<Rightarrow> NaN | Some x \<Rightarrow> x)"

text \<open>
  A value of type \<open>string | null\<close>, or \<open>undefined\<close> where a missing key was read. Used as
  a property key, \<open>undefined\<close> and \<open>null\<close> are the strings of their names.
\<close>

datatype ref = Undefined | Null | Id string


text \<open>
  \<open>Node\<close> and \<open>Edge\<close>: the algorithms read the identifier and the label of a node and the
  endpoints and the weight of an edge; the drawing fields are left out.
\<close>

record node =
  nodeId :: string
  label :: string

record edge =
  efrom :: node
  eto :: node
  weight :: real

datatype stepType = Init | Update | Visit | Finish

text \<open>The message of a step, kept as its template and the values put into it.\<close>

datatype msg =
    DijkstraInit
  | DijkstraVisiting string jsnum
  | DijkstraUpdated string jsnum string
  | DijkstraCompleted
  | BellmanFordInit
  | BellmanFordRelaxed nat "string option" "string option" jsnum
  | BellmanFordNoUpdates nat
  | BellmanFordNegativeCycle "string option" "string option"
  | BellmanFordCompletedNegative nat
  | BellmanFordCompleted
  | FloydWarshallInit
  | FloydWarshallUsing string string string jsnum
  | FloydWarshallCompleted

record step =
  stype :: stepType
  message :: msg
  currentNode :: "string option"
  distances :: "(string \<Rightarrow> jsnum option) option"
  visited :: "string list option"
  previous :: "(string \<Rightarrow> ref) option"
  distanceMatrix :: "jsnum list list option"
  stepNodes :: "string list option"
  iNode :: "string option"
  jNode :: "string option"
  kNode :: "string option"

record result =
  steps :: "step list"
  finalDistances :: "string \<Rightarrow> jsnum option"
  shortestPaths :: "string \<Rightarrow> ref list option"

datatype error = TypeError


definition mkStep :: "stepType \<Rightarrow> msg \<Rightarrow> step" where
  "mkStep t m = \<lparr>stype = t, message = m, currentNode = None, distances = None,
     visited = None, previous = None, distanceMatrix = None, stepNodes = None,
     iNode = None, jNode = None, kNode = None\<rparr>"

section \<open>Priority queue\<close>

type_synonym item = "node \<times> jsnum"

text \<open>
  \<open>items.sort((a, b) => a.priority - b.priority)\<close>: a stable sort; \<open>a\<close> goes after
  \<open>b\<close> only where the comparator is positive.
\<close>

definition comparePositive :: "item \<Rightarrow> item \<Rightarrow> bool" where
  "comparePositive a b = js_lt (Fin 0) (js_sub (snd a) (snd b))"

fun insortItem :: "item \<Rightarrow> item list \<Rightarrow> item list" where
  "insortItem x [] = [x]"
| "insortItem x (y # ys) =
     (if comparePositive x y then y # insortItem x ys else x # y # ys)"

definition sortItems :: "item list \<Rightarrow> item list" where
  "sortItems xs = foldr insortItem xs []"

definition add :: "item list \<Rightarrow> node \<Rightarrow> jsnum \<Rightarrow> item list" where
  "add items n priority = sortItems (items @ [(n, priority)])"

definition hasNode :: "item list \<Rightarrow> string \<Rightarrow> bool" where
  "hasNode items nid = list_ex (\<lambda>it. nodeId (fst it) = nid) items"

fun setPriority :: "string \<Rightarrow> jsnum \<Rightarrow> item list \<Rightarrow> item list" where
  "setPriority nid p [] = []"
| "setPriority nid p (it # its) =
     (if nodeId (fst it) = nid then (fst it, p) # its else it # setPriority nid p its)"

definition changePriority :: "item list \<Rightarrow> string \<Rightarrow> jsnum \<Rightarrow> item list" where
  "changePriority items nid newPriority =
     (if hasNode items nid then sortItems (setPriority nid newPriority items) else items)"

definition itemIds :: "item list \<Rightarrow> string set" where
  "itemIds its = (\<lambda>it. nodeId (fst it)) ` set its"

section \<open>dijkstra\<close>

record dstate =
  dSteps :: "step list"
  dDistances :: "string \<Rightarrow> jsnum option"
  visitedVertices :: "string \<Rightarrow> bool option"
  previousVertices :: "string \<Rightarrow> ref"
  queue :: "item list"
  visitedList :: "string list"

definition truthy :: "bool option \<Rightarrow> bool" where
  "truthy b = (b = Some True)"

definition snapshot :: "stepType \<Rightarrow> msg \<Rightarrow> string option \<Rightarrow> dstate \<Rightarrow> step" where
  "snapshot t m cur s = (mkStep t m)\<lparr>currentNode := cur, distances := Some (dDistances s),
     visited := Some (visitedList s), previous := Some (previousVertices s)\<rparr>"

definition enqueue :: "node list \<Rightarrow> string \<Rightarrow> dstate \<Rightarrow> dstate" where
  "enqueue nodes nid s =
     (case find (\<lambda>n. nodeId n = nid) nodes of
        None \<Rightarrow> s
      | Some neighborNode \<Rightarrow>
          s\<lparr>queue := add (queue s) neighborNode (toNumber (dDistances s nid))\<rparr>)"

text \<open>The body of \<open>outgoingEdges.forEach\<close> for one edge leaving the current node.\<close>

definition relaxNeighbor :: "node list \<Rightarrow> node \<Rightarrow> edge \<Rightarrow> dstate \<Rightarrow> dstate" where
  "relaxNeighbor nodes cnode e s =
     (let neighbor = eto e in
      if truthy (visitedVertices s (nodeId neighbor)) then s
      else
        let existingDistanceToNeighbor = toNumber (dDistances s (nodeId neighbor));
            distanceToNeighborFromCurrent =
              js_add (toNumber (dDistances s (nodeId cnode))) (Fin (weight e))
        in
        if js_lt distanceToNeighborFromCurrent existingDistanceToNeighbor then
          let s1 = s\<lparr>dDistances := (dDistances s)(nodeId neighbor \<mapsto> distanceToNeighborFromCurrent),
                     previousVertices := (previousVertices s)(nodeId neighbor := Id (nodeId cnode))\<rparr>;
              s2 = (if hasNode (queue s1) (nodeId neighbor)
                    then s1\<lparr>queue := changePriority (queue s1) (nodeId neighbor)
                                        (toNumber (dDistances s1 (nodeId neighbor)))\<rparr>
                    else enqueue nodes (nodeId neighbor) s1)
          in s2\<lparr>dSteps := dSteps s2 @
                 [snapshot Update
                    (DijkstraUpdated (label neighbor) distanceToNeighborFromCurrent (label cnode))
                    (Some (nodeId cnode)) s2]\<rparr>
        else if \<not> hasNode (queue s) (nodeId neighbor) then enqueue nodes (nodeId neighbor) s
        else s)"

definition visitNode :: "node \<Rightarrow> jsnum \<Rightarrow> dstate \<Rightarrow> dstate" where
  "visitNode cnode d s =
     (let s1 = s\<lparr>visitedVertices := (visitedVertices s)(nodeId cnode \<mapsto> True),
                 visitedList := visitedList s @ [nodeId cnode]\<rparr>
      in s1\<lparr>dSteps := dSteps s1 @
             [snapshot Visit (DijkstraVisiting (label cnode) d)
                (Some (nodeId cnode)) s1]\<rparr>)"



lemma set_insortItem: "set (insortItem x ys) = insert x (set ys)"
  by (induction ys) auto

lemma set_sortItems: "set (sortItems xs) = set xs"
  unfolding sortItems_def by (induction xs) (auto simp: set_insortItem)

lemma length_insortItem: "length (insortItem x ys) = Suc (length ys)"
  by (induction ys) auto

lemma length_sortItems: "length (sortItems xs) = length xs"
  unfolding sortItems_def by (induction xs) (auto simp: length_insortItem)


lemma itemIds_simps [simp]: "itemIds [] = {}" "itemIds (it # its) = insert (nodeId (fst it)) (itemIds its)"
  by (auto simp: itemIds_def)

lemma finite_itemIds [simp]: "finite (itemIds its)"
  by (simp add: itemIds_def)

lemma itemIds_sortItems [simp]: "itemIds (sortItems its) = itemIds its"
  by (simp add: itemIds_def set_sortItems)

lemma ids_setPriority [simp]: "itemIds (setPriority nid p its) = itemIds its"
  by (induction its) auto

lemma ids_add [simp]: "itemIds (add its n p) = insert (nodeId n) (itemIds its)"
  by (auto simp: add_def itemIds_def set_sortItems)

lemma ids_changePriority [simp]: "itemIds (changePriority its nid p) = itemIds its"
  by (simp add: changePriority_def)



lemma enqueue_visitedVertices [simp]:
  "visitedVertices (enqueue nodes nid s) = visitedVertices s"
  by (simp add: enqueue_def split: option.splits)

lemma relaxNeighbor_visitedVertices [simp]:
  "visitedVertices (relaxNeighbor nodes cnode e s) = visitedVertices s"
  by (simp add: relaxNeighbor_def Let_def)


lemma fold_relaxNeighbor_visitedVertices [simp]:
  "visitedVertices (fold (relaxNeighbor nodes cnode) es s) = visitedVertices s"
  by (induction es arbitrary: s) auto













section \<open>bellmanFord\<close>

record directedEdge =
  fromId :: string
  toId :: string
  dweight :: real

record bstate =
  bSteps :: "step list"
  bDistances :: "string \<Rightarrow> jsnum option"
  bPrevious :: "string \<Rightarrow> ref"

definition bSnapshot :: "stepType \<Rightarrow> msg \<Rightarrow> string option \<Rightarrow> bstate \<Rightarrow> step" where
  "bSnapshot t m cur s = (mkStep t m)\<lparr>currentNode := cur, distances := Some (bDistances s),
     previous := Some (bPrevious s)\<rparr>"

definition labelOf :: "node list \<Rightarrow> string \<Rightarrow> string option" where
  "labelOf nodes nid = map_option label (find (\<lambda>n. nodeId n = nid) nodes)"

definition bellmanFordInit :: "node list \<Rightarrow> string \<Rightarrow> bstate" where
  "bellmanFordInit nodes sourceId =
     (let s = \<lparr>bSteps = [],
               bDistances = fold (\<lambda>n d. d(nodeId n \<mapsto> (if nodeId n = sourceId then Fin 0 else PInf)))
                              nodes (\<lambda>k. None),
               bPrevious = fold (\<lambda>n p. p(nodeId n := Null)) nodes (\<lambda>k. Undefined)\<rparr>
      in s\<lparr>bSteps := bSteps s @ [bSnapshot Init BellmanFordInit None s]\<rparr>)"




text \<open>The extra pass: \<open>negativeNodes\<close> is a set, kept in insertion order.\<close>

definition setAdd :: "'a list \<Rightarrow> 'a \<Rightarrow> 'a list" where
  "setAdd xs x = (if x \<in> set xs then xs else xs @ [x])"







section \<open>floydWarshall\<close>

fun indexFrom :: "string list \<Rightarrow> string \<Rightarrow> nat \<Rightarrow> int" where
  "indexFrom [] x i = - 1"
| "indexFrom (y # ys) x i = (if y = x then int i else indexFrom ys x (Suc i))"

definition indexOf :: "string list \<Rightarrow> string \<Rightarrow> int" where
  "indexOf xs x = indexFrom xs x 0"

type_synonym matrices = "jsnum list list \<times> nat option list list"

definition setCell :: "'a list list \<Rightarrow> nat \<Rightarrow> nat \<Rightarrow> 'a \<Rightarrow> 'a list list" where
  "setCell m i j v = m[i := (m ! i)[j := v]]"

definition initMatrices :: "nat \<Rightarrow> matrices" where
  "initMatrices n =
     (fold (\<lambda>i d. setCell d i i (Fin 0)) [0..<n] (replicate n (replicate n PInf)),
      replicate n (replicate n None))"

text \<open>
  The body of \<open>edges.forEach\<close>. Where the from-vertex is not in the vertex list, \<open>dist[-1]\<close>
  is \<open>undefined\<close> and the assignment throws a TypeError. Where only the to-vertex is
  missing, the assignments set the property \<open>-1\<close> of a row, which is no element of it: no
  index read and no copy of the row sees it.
\<close>

definition setEdge :: "string list \<Rightarrow> edge \<Rightarrow> matrices \<Rightarrow> error + matrices" where
  "setEdge ids e m =
     (let i = indexOf ids (nodeId (efrom e));
          j = indexOf ids (nodeId (eto e))
      in if i < 0 then Inl TypeError
         else if j < 0 then Inr m
         else Inr (setCell (fst m) (nat i) (nat j) (Fin (weight e)),
                   setCell (snd m) (nat i) (nat j) (Some (nat j))))"

fun forEachEdge :: "string list \<Rightarrow> edge list \<Rightarrow> matrices \<Rightarrow> error + matrices" where
  "forEachEdge ids [] m = Inr m"
| "forEachEdge ids (e # es) m =
     (case setEdge ids e m of Inl err \<Rightarrow> Inl err | Inr m' \<Rightarrow> forEachEdge ids es m')"

definition matrixStep :: "stepType \<Rightarrow> msg \<Rightarrow> jsnum list list \<Rightarrow> string list \<Rightarrow> step" where
  "matrixStep t m d ids = (mkStep t m)\<lparr>distanceMatrix := Some d, stepNodes := Some ids\<rparr>"

type_synonym fwstate = "jsnum list list \<times> nat option list list \<times> step list"

text \<open>The body of the innermost loop, for intermediate \<open>k\<close>, row \<open>i\<close> and column \<open>j\<close>.\<close>

definition refine :: "string list \<Rightarrow> nat \<Rightarrow> nat \<Rightarrow> nat \<Rightarrow> fwstate \<Rightarrow> fwstate" where
  "refine ids k i j s =
     (case s of (d, nx, st) \<Rightarrow>
        if js_lt (js_add (d ! i ! k) (d ! k ! j)) (d ! i ! j) then
          let d' = setCell d i j (js_add (d ! i ! k) (d ! k ! j));
              nx' = setCell nx i j (nx ! i ! k)
          in (d', nx',
              st @ [(matrixStep Update
                       (FloydWarshallUsing (ids ! k) (ids ! i) (ids ! j) (d' ! i ! j)) d' ids)
                     \<lparr>iNode := Some (ids ! i), jNode := Some (ids ! j), kNode := Some (ids ! k)\<rparr>])
        else s)"

definition refineAll :: "string list \<Rightarrow> nat \<Rightarrow> fwstate \<Rightarrow> fwstate" where
  "refineAll ids n s =
     fold (\<lambda>k. fold (\<lambda>i. fold (\<lambda>j. refine ids k i j) [0..<n]) [0..<n]) [0..<n] s"

definition fromFirst :: "node list \<Rightarrow> string list \<Rightarrow> jsnum list list
    \<Rightarrow> (string \<Rightarrow> jsnum option) \<times> (string \<Rightarrow> ref list option)" where
  "fromFirst nodes ids d =
     (if length nodes > 0 then
        fold (\<lambda>ni fp. ((fst fp)(nodeId (fst ni) \<mapsto> d ! 0 ! snd ni),
                        (snd fp)(nodeId (fst ni) \<mapsto> [Id (ids ! 0), Id (nodeId (fst ni))])))
          (zip nodes [0..<length nodes]) (\<lambda>k. None, \<lambda>k. None)
      else (\<lambda>k. None, \<lambda>k. None))"

definition floydWarshall :: "node list \<Rightarrow> edge list \<Rightarrow> error + result" where
  "floydWarshall nodes edges =
     (let n = length nodes;
          ids = map nodeId nodes
      in case forEachEdge ids edges (initMatrices n) of
           Inl err \<Rightarrow> Inl err
         | Inr m \<Rightarrow>
             (case refineAll ids n (fst m, snd m, [matrixStep Init FloydWarshallInit (fst m) ids]) of
                (d, nx, st) \<Rightarrow>
                  let fp = fromFirst nodes ids d in
                  Inr \<lparr>steps = st @ [matrixStep Finish FloydWarshallCompleted d ids],
                       finalDistances = fst fp, shortestPaths = snd fp\<rparr>))"


section \<open>Arithmetic of the number model\<close>

lemma js_lt_NaN_right [simp]: "js_lt x NaN = False"
  by (cases x) simp_all

lemma js_lt_NaN_left [simp]: "js_lt NaN x = False"
  by simp

lemma js_add_NaN_right [simp]: "js_add x NaN = NaN"
  by (cases x) simp_all

lemma js_lt_PInf_left [simp]: "js_lt PInf x = False"
  by simp

lemma js_add_PInf_Fin [simp]: "js_add PInf (Fin w) = PInf"
  by simp

lemma toNumber_simps [simp]: "toNumber None = NaN" "toNumber (Some x) = x"
  by (simp_all add: toNumber_def)

section \<open>Initial maps\<close>





lemma bellmanFordInit_steps:
  "map stype (bSteps (bellmanFordInit nodes sourceId)) = [Init]"
  by (simp add: bellmanFordInit_def Let_def bSnapshot_def mkStep_def)

section \<open>A pass over edges that cannot relax anything\<close>














section \<open>Empty vertex list\<close>







section \<open>Matrices of floydWarshall\<close>

definition square :: "nat \<Rightarrow> 'a list list \<Rightarrow> bool" where
  "square n m = (length m = n \<and> (\<forall>row \<in> set m. length row = n))"

lemma square_replicate: "square n (replicate n (replicate n v))"
  by (simp add: square_def)

lemma square_setCell: "square n m \<Longrightarrow> square n (setCell m i j v)"
proof (cases "i < length m")
  case True
  assume sq: "square n m"
  have "length ((m ! i)[j := v]) = n"
    using sq True by (simp add: square_def)
  moreover have "set (m[i := (m ! i)[j := v]]) \<subseteq> insert ((m ! i)[j := v]) (set m)"
    by (rule set_update_subset_insert)
  ultimately show ?thesis
    using sq by (auto simp: square_def setCell_def)
next
  case False
  assume "square n m"
  then show ?thesis using False by (simp add: setCell_def list_update_beyond)
qed

lemma setCell_same: "square n m \<Longrightarrow> i < n \<Longrightarrow> j < n \<Longrightarrow> setCell m i j v ! i ! j = v"
  by (simp add: square_def setCell_def)

lemma setCell_other:
  "(i', j') \<noteq> (i, j) \<Longrightarrow> setCell m i j v ! i' ! j' = m ! i' ! j'"
  by (cases "i < length m") (auto simp: setCell_def nth_list_update list_update_beyond)

lemma fold_diag_square:
  "square n d \<Longrightarrow> square n (fold (\<lambda>i d. setCell d i i v) is d)"
  by (induction "is" arbitrary: d) (simp_all add: square_setCell)

lemma initMatrices_square: "square n (fst (initMatrices n)) \<and> square n (snd (initMatrices n))"
  by (simp add: initMatrices_def fold_diag_square square_replicate)

subsection \<open>indexOf\<close>

lemma indexFrom_absent: "x \<notin> set ys \<Longrightarrow> indexFrom ys x i = - 1"
  by (induction ys arbitrary: i) auto

lemma indexFrom_present:
  "x \<in> set ys \<Longrightarrow> int i \<le> indexFrom ys x i \<and> indexFrom ys x i < int i + int (length ys)
     \<and> ys ! (nat (indexFrom ys x i) - i) = x"
proof (induction ys arbitrary: i)
  case Nil
  then show ?case by simp
next
  case (Cons y ys)
  show ?case
  proof (cases "y = x")
    case True
    then show ?thesis by simp
  next
    case False
    then have "x \<in> set ys" using Cons.prems by simp
    from Cons.IH [OF this, of "Suc i"]
    have a: "int (Suc i) \<le> indexFrom ys x (Suc i)"
      and b: "indexFrom ys x (Suc i) < int (Suc i) + int (length ys)"
      and c: "ys ! (nat (indexFrom ys x (Suc i)) - Suc i) = x" by simp_all
    have "nat (indexFrom ys x (Suc i)) - i = Suc (nat (indexFrom ys x (Suc i)) - Suc i)"
      using a by linarith
    then show ?thesis using False a b c by simp
  qed
qed

lemma indexOf_absent: "x \<notin> set ys \<Longrightarrow> indexOf ys x = - 1"
  by (simp add: indexOf_def indexFrom_absent)

lemma indexOf_present:
  "x \<in> set ys \<Longrightarrow> 0 \<le> indexOf ys x \<and> indexOf ys x < int (length ys) \<and> ys ! nat (indexOf ys x) = x"
  using indexFrom_present [of x ys 0] by (simp add: indexOf_def)

lemma indexOf_negative_iff: "indexOf ys x < 0 \<longleftrightarrow> x \<notin> set ys"
  using indexOf_absent [of x ys] indexOf_present [of x ys] by fastforce

lemma indexOf_inj:
  "x \<in> set ys \<Longrightarrow> y \<in> set ys \<Longrightarrow> indexOf ys x = indexOf ys y \<Longrightarrow> x = y"
  using indexOf_present [of x ys] indexOf_present [of y ys] by metis

subsection \<open>Entering the edges\<close>

lemma setEdge_square:
  "setEdge ids e m = Inr m' \<Longrightarrow> square n (fst m) \<Longrightarrow> square n (snd m)
     \<Longrightarrow> square n (fst m') \<and> square n (snd m')"
  by (auto simp: setEdge_def Let_def square_setCell split: if_splits)

lemma forEachEdge_square:
  "forEachEdge ids es m = Inr m' \<Longrightarrow> square n (fst m) \<Longrightarrow> square n (snd m)
     \<Longrightarrow> square n (fst m') \<and> square n (snd m')"
proof (induction es arbitrary: m)
  case Nil
  then show ?case by simp
next
  case (Cons e es)
  then obtain m1 where m1: "setEdge ids e m = Inr m1" and rest: "forEachEdge ids es m1 = Inr m'"
    by (auto split: sum.splits)
  from setEdge_square [OF m1 Cons.prems(2,3)] Cons.IH [OF rest] show ?case by simp
qed

lemma setEdge_total:
  "nodeId (efrom e) \<in> set ids \<Longrightarrow> \<exists>m'. setEdge ids e m = Inr m'"
  using indexOf_present [of "nodeId (efrom e)" ids] by (simp add: setEdge_def Let_def)

lemma forEachEdge_total:
  "\<forall>e \<in> set es. nodeId (efrom e) \<in> set ids \<Longrightarrow> \<exists>m'. forEachEdge ids es m = Inr m'"
proof (induction es arbitrary: m)
  case Nil
  then show ?case by simp
next
  case (Cons e es)
  then obtain m1 where "setEdge ids e m = Inr m1"
    using setEdge_total [of e ids m] by auto
  then show ?case using Cons by simp
qed

lemma setEdge_throws:
  "nodeId (efrom e) \<notin> set ids \<Longrightarrow> setEdge ids e m = Inl TypeError"
  by (simp add: setEdge_def Let_def indexOf_absent)

lemma forEachEdge_append:
  "forEachEdge ids (xs @ ys) m =
     (case forEachEdge ids xs m of Inl err \<Rightarrow> Inl err | Inr m' \<Rightarrow> forEachEdge ids ys m')"
  by (induction xs arbitrary: m) (auto split: sum.splits)

subsection \<open>The refinement loops\<close>

lemma refine_square:
  "square n (fst s) \<Longrightarrow> square n (fst (snd s))
     \<Longrightarrow> square n (fst (refine ids k i j s)) \<and> square n (fst (snd (refine ids k i j s)))"
  by (cases s) (simp add: refine_def Let_def square_setCell)

lemma refine_steps_prefix: "\<exists>more. snd (snd (refine ids k i j s)) = snd (snd s) @ more"
  by (cases s) (simp add: refine_def Let_def)

definition fwInv :: "nat \<Rightarrow> step list \<Rightarrow> fwstate \<Rightarrow> bool" where
  "fwInv n st0 s = (square n (fst s) \<and> square n (fst (snd s)) \<and> (\<exists>more. snd (snd s) = st0 @ more))"

lemma refine_fwInv: "fwInv n st0 s \<Longrightarrow> fwInv n st0 (refine ids k i j s)"
  using refine_square [of n s ids k i j] refine_steps_prefix [of ids k i j s]
  by (auto simp: fwInv_def)

lemma refineAll_preserves:
  assumes step: "\<And>k i j s. k < n \<Longrightarrow> i < n \<Longrightarrow> j < n \<Longrightarrow> P s \<Longrightarrow> P (refine ids k i j s)"
    and init: "P s"
  shows "P (refineAll ids n s)"
proof -
  have inner: "P (fold (refine ids k i) js s)"
    if "P s" "k < n" "i < n" "set js \<subseteq> {..<n}" for k i js s
    using that by (induction js arbitrary: s) (simp_all add: step)
  have middle: "P (fold (\<lambda>i. fold (refine ids k i) [0..<n]) is s)"
    if "P s" "k < n" "set is \<subseteq> {..<n}" for k "is" s
    using that
  proof (induction "is" arbitrary: s)
    case Nil
    then show ?case by simp
  next
    case (Cons i "is")
    have "P (fold (refine ids k i) [0..<n] s)"
      using Cons.prems by (intro inner) auto
    then show ?case using Cons by simp
  qed
  have outer: "P (fold (\<lambda>k. fold (\<lambda>i. fold (refine ids k i) [0..<n]) [0..<n]) ks s)"
    if "P s" "set ks \<subseteq> {..<n}" for ks s
    using that
  proof (induction ks arbitrary: s)
    case Nil
    then show ?case by simp
  next
    case (Cons k ks)
    have "P (fold (\<lambda>i. fold (refine ids k i) [0..<n]) [0..<n] s)"
      using Cons.prems by (intro middle) auto
    then show ?case using Cons by simp
  qed
  show ?thesis
    unfolding refineAll_def using init by (intro outer) auto
qed

lemma refineAll_fwInv: "fwInv n st0 s \<Longrightarrow> fwInv n st0 (refineAll ids n' s)"
  by (rule refineAll_preserves [where P = "fwInv n st0"]) (simp_all add: refine_fwInv)

definition recordsSquare :: "nat \<Rightarrow> step list \<Rightarrow> bool" where
  "recordsSquare n st = (\<forall>s \<in> set st. \<exists>m. distanceMatrix s = Some m \<and> square n m)"

definition fwShape :: "nat \<Rightarrow> fwstate \<Rightarrow> bool" where
  "fwShape n s = (square n (fst s) \<and> square n (fst (snd s)) \<and> recordsSquare n (snd (snd s)))"

lemma refine_fwShape: "fwShape n s \<Longrightarrow> fwShape n (refine ids k i j s)"
  by (cases s)
     (auto simp: fwShape_def refine_def Let_def square_setCell recordsSquare_def matrixStep_def mkStep_def)

lemma refineAll_fwShape: "fwShape n s \<Longrightarrow> fwShape n (refineAll ids n s)"
  by (rule refineAll_preserves [where P = "fwShape n"]) (simp_all add: refine_fwShape)

lemma floydWarshall_Inr:
  assumes "forEachEdge (map nodeId nodes) edges (initMatrices (length nodes)) = Inr m"
  shows "\<exists>d nx more.
           refineAll (map nodeId nodes) (length nodes)
             (fst m, snd m, [matrixStep Init FloydWarshallInit (fst m) (map nodeId nodes)])
             = (d, nx, matrixStep Init FloydWarshallInit (fst m) (map nodeId nodes) # more)
         \<and> square (length nodes) d
         \<and> recordsSquare (length nodes) (matrixStep Init FloydWarshallInit (fst m) (map nodeId nodes) # more)
         \<and> floydWarshall nodes edges =
             Inr \<lparr>steps = (matrixStep Init FloydWarshallInit (fst m) (map nodeId nodes) # more)
                          @ [matrixStep Finish FloydWarshallCompleted d (map nodeId nodes)],
                  finalDistances = fst (fromFirst nodes (map nodeId nodes) d),
                  shortestPaths = snd (fromFirst nodes (map nodeId nodes) d)\<rparr>"
proof -
  let ?ids = "map nodeId nodes"
  let ?n = "length nodes"
  let ?st0 = "[matrixStep Init FloydWarshallInit (fst m) ?ids]"
  let ?s0 = "(fst m, snd m, ?st0)"
  obtain d nx st where res: "refineAll ?ids ?n ?s0 = (d, nx, st)"
    by (cases "refineAll ?ids ?n ?s0") auto
  have sq: "square ?n (fst m) \<and> square ?n (snd m)"
    using forEachEdge_square [OF assms] initMatrices_square by blast
  have "fwInv ?n ?st0 ?s0" using sq by (simp add: fwInv_def)
  from refineAll_fwInv [OF this, of ?ids ?n] res
  obtain more where st: "st = matrixStep Init FloydWarshallInit (fst m) ?ids # more"
    by (auto simp: fwInv_def)
  have "fwShape ?n ?s0"
    using sq by (simp add: fwShape_def recordsSquare_def matrixStep_def mkStep_def)
  from refineAll_fwShape [OF this, of ?ids] res
  have shape: "square ?n d" "recordsSquare ?n st" by (simp_all add: fwShape_def)
  have "floydWarshall nodes edges =
          Inr \<lparr>steps = st @ [matrixStep Finish FloydWarshallCompleted d ?ids],
               finalDistances = fst (fromFirst nodes ?ids d),
               shortestPaths = snd (fromFirst nodes ?ids d)\<rparr>"
    by (simp add: floydWarshall_def Let_def assms res)
  then show ?thesis using res st shape by auto
qed



section \<open>Parallel edges\<close>

lemma setEdge_keeps_cell:
  assumes "setEdge ids e' m = Inr m'"
    and "\<not> (indexOf ids (nodeId (efrom e')) = int i \<and> indexOf ids (nodeId (eto e')) = int j)"
  shows "fst m' ! i ! j = fst m ! i ! j"
proof -
  let ?a = "indexOf ids (nodeId (efrom e'))"
  let ?b = "indexOf ids (nodeId (eto e'))"
  show ?thesis
  proof (cases "?a < 0 \<or> ?b < 0")
    case True
    then show ?thesis using assms(1) by (auto simp: setEdge_def Let_def split: if_splits)
  next
    case False
    then have "(i, j) \<noteq> (nat ?a, nat ?b)" using assms(2) by auto
    then show ?thesis
      using assms(1) False by (auto simp: setEdge_def Let_def setCell_other split: if_splits)
  qed
qed

lemma forEachEdge_keeps_cell:
  assumes "forEachEdge ids es m = Inr m'"
    and "\<forall>e' \<in> set es. \<not> (indexOf ids (nodeId (efrom e')) = int i \<and> indexOf ids (nodeId (eto e')) = int j)"
  shows "fst m' ! i ! j = fst m ! i ! j"
  using assms
proof (induction es arbitrary: m)
  case Nil
  then show ?case by simp
next
  case (Cons e es)
  then obtain m1 where m1: "setEdge ids e m = Inr m1" and rest: "forEachEdge ids es m1 = Inr m'"
    by (auto split: sum.splits)
  have "fst m1 ! i ! j = fst m ! i ! j"
    using setEdge_keeps_cell [OF m1] Cons.prems(2) by simp
  moreover have "fst m' ! i ! j = fst m1 ! i ! j"
    using Cons.IH [OF rest] Cons.prems(2) by simp
  ultimately show ?case by simp
qed

lemma setEdge_sets_cell:
  assumes "setEdge ids e m = Inr m'" "square n (fst m)" "length ids = n"
    and "nodeId (efrom e) \<in> set ids" "nodeId (eto e) \<in> set ids"
  shows "fst m' ! nat (indexOf ids (nodeId (efrom e))) ! nat (indexOf ids (nodeId (eto e))) = Fin (weight e)"
  using assms indexOf_present [OF assms(4)] indexOf_present [OF assms(5)]
  by (auto simp: setEdge_def Let_def setCell_same split: if_splits)

text \<open>
  C7: the cell of the initial matrix for an ordered pair of listed vertices holds the
  weight of the last edge of the edge list between that pair, whatever the weights of
  the earlier edges between them.
\<close>

theorem last_parallel_edge_wins:
  assumes "\<forall>e' \<in> set (es1 @ e # es2). nodeId (efrom e') \<in> nodeId ` set nodes"
    and "nodeId (eto e) \<in> nodeId ` set nodes"
    and "\<forall>e' \<in> set es2. \<not> (nodeId (efrom e') = nodeId (efrom e) \<and> nodeId (eto e') = nodeId (eto e))"
  shows "\<exists>r M. floydWarshall nodes (es1 @ e # es2) = Inr r
           \<and> stype (hd (steps r)) = Init
           \<and> distanceMatrix (hd (steps r)) = Some M
           \<and> M ! nat (indexOf (map nodeId nodes) (nodeId (efrom e)))
               ! nat (indexOf (map nodeId nodes) (nodeId (eto e))) = Fin (weight e)"
proof -
  let ?ids = "map nodeId nodes"
  let ?n = "length nodes"
  let ?i = "nat (indexOf ?ids (nodeId (efrom e)))"
  let ?j = "nat (indexOf ?ids (nodeId (eto e)))"
  have fe: "nodeId (efrom e) \<in> set ?ids" and te: "nodeId (eto e) \<in> set ?ids"
    using assms(1,2) by auto
  have "\<forall>e' \<in> set (es1 @ e # es2). nodeId (efrom e') \<in> set ?ids" using assms(1) by auto
  from forEachEdge_total [OF this]
  obtain m where m: "forEachEdge ?ids (es1 @ e # es2) (initMatrices ?n) = Inr m" by blast
  then obtain m1 where m1: "forEachEdge ?ids es1 (initMatrices ?n) = Inr m1"
    and m2: "forEachEdge ?ids (e # es2) m1 = Inr m"
    by (auto simp: forEachEdge_append split: sum.splits)
  then obtain m3 where m3: "setEdge ?ids e m1 = Inr m3" and m4: "forEachEdge ?ids es2 m3 = Inr m"
    by (auto split: sum.splits)
  have sq1: "square ?n (fst m1)"
    using forEachEdge_square [OF m1] initMatrices_square by blast
  have cell3: "fst m3 ! ?i ! ?j = Fin (weight e)"
    using setEdge_sets_cell [OF m3 sq1 _ fe te] by simp
  have later: "\<forall>e' \<in> set es2. \<not> (indexOf ?ids (nodeId (efrom e')) = int ?i
                 \<and> indexOf ?ids (nodeId (eto e')) = int ?j)"
  proof (intro ballI notI)
    fix e' assume e': "e' \<in> set es2"
      and eq: "indexOf ?ids (nodeId (efrom e')) = int ?i \<and> indexOf ?ids (nodeId (eto e')) = int ?j"
    have i0: "0 \<le> indexOf ?ids (nodeId (efrom e))" and j0: "0 \<le> indexOf ?ids (nodeId (eto e))"
      using indexOf_present [OF fe] indexOf_present [OF te] by simp_all
    have a: "indexOf ?ids (nodeId (efrom e')) = indexOf ?ids (nodeId (efrom e))"
      and b: "indexOf ?ids (nodeId (eto e')) = indexOf ?ids (nodeId (eto e))"
      using eq i0 j0 by simp_all
    have "nodeId (efrom e') \<in> set ?ids"
      using a i0 indexOf_negative_iff [of ?ids "nodeId (efrom e')"] by linarith
    then have f: "nodeId (efrom e') = nodeId (efrom e)" using indexOf_inj [OF _ fe a] by simp
    have "nodeId (eto e') \<in> set ?ids"
      using b j0 indexOf_negative_iff [of ?ids "nodeId (eto e')"] by linarith
    then have t: "nodeId (eto e') = nodeId (eto e)" using indexOf_inj [OF _ te b] by simp
    show False using assms(3) e' f t by blast
  qed
  have cell: "fst m ! ?i ! ?j = Fin (weight e)"
    using forEachEdge_keeps_cell [OF m4 later] cell3 by simp
  from floydWarshall_Inr [OF m]
  obtain d more where
    r: "floydWarshall nodes (es1 @ e # es2) =
             Inr \<lparr>steps = (matrixStep Init FloydWarshallInit (fst m) ?ids # more)
                          @ [matrixStep Finish FloydWarshallCompleted d ?ids],
                  finalDistances = fst (fromFirst nodes ?ids d),
                  shortestPaths = snd (fromFirst nodes ?ids d)\<rparr>"
    by blast
  show ?thesis
    unfolding r using cell by (simp add: matrixStep_def mkStep_def)
qed

theorem last_parallel_edge_wins_witness:
  "\<exists>r M. floydWarshall [\<lparr>nodeId = ''A'', label = ''A''\<rparr>, \<lparr>nodeId = ''B'', label = ''B''\<rparr>]
     [\<lparr>efrom = \<lparr>nodeId = ''A'', label = ''A''\<rparr>, eto = \<lparr>nodeId = ''B'', label = ''B''\<rparr>, weight = 10\<rparr>,
      \<lparr>efrom = \<lparr>nodeId = ''A'', label = ''A''\<rparr>, eto = \<lparr>nodeId = ''B'', label = ''B''\<rparr>, weight = 3\<rparr>] = Inr r
     \<and> stype (hd (steps r)) = Init
     \<and> distanceMatrix (hd (steps r)) = Some M
     \<and> M ! 0 ! 1 = Fin 3"
  using last_parallel_edge_wins [of
     "[\<lparr>efrom = \<lparr>nodeId = ''A'', label = ''A''\<rparr>, eto = \<lparr>nodeId = ''B'', label = ''B''\<rparr>, weight = 10\<rparr>]"
     "\<lparr>efrom = \<lparr>nodeId = ''A'', label = ''A''\<rparr>, eto = \<lparr>nodeId = ''B'', label = ''B''\<rparr>, weight = 3\<rparr>"
     "[]"
     "[\<lparr>nodeId = ''A'', label = ''A''\<rparr>, \<lparr>nodeId = ''B'', label = ''B''\<rparr>]"]
  by (simp add: indexOf_def)

section \<open>Effect of one relaxation in dijkstra\<close>


lemma enqueue_fields [simp]:
  "dDistances (enqueue nodes nid s) = dDistances s"
  "previousVertices (enqueue nodes nid s) = previousVertices s"
  "visitedList (enqueue nodes nid s) = visitedList s"
  "dSteps (enqueue nodes nid s) = dSteps s"
  by (simp_all add: enqueue_def split: option.splits)



lemma relaxNeighbor_visitedList [simp]:
  "visitedList (relaxNeighbor nodes cnode e s) = visitedList s"
  by (simp add: relaxNeighbor_def Let_def)


lemma visitNode_fields [simp]:
  "dDistances (visitNode cnode d s) = dDistances s"
  "previousVertices (visitNode cnode d s) = previousVertices s"
  "visitedList (visitNode cnode d s) = visitedList s @ [nodeId cnode]"
  "visitedVertices (visitNode cnode d s) = (visitedVertices s)(nodeId cnode \<mapsto> True)"
  "queue (visitNode cnode d s) = queue s"
  by (simp_all add: visitNode_def Let_def)

lemma fold_relaxNeighbor_visitedList [simp]:
  "visitedList (fold (relaxNeighbor nodes cnode) es s) = visitedList s"
  by (induction es arbitrary: s) auto


section \<open>The loop of dijkstra keeps an invariant\<close>


section \<open>Order of visits\<close>







section \<open>Structure of the state of dijkstra\<close>










section \<open>The predecessor walk of dijkstra\<close>








section \<open>Effect of one edge in bellmanFord\<close>





definition flagged :: "node list \<Rightarrow> directedEdge \<Rightarrow> bstate \<Rightarrow> bstate" where
  "flagged nodes e s =
     s\<lparr>bSteps := bSteps s @
         [bSnapshot Update
            (BellmanFordNegativeCycle (labelOf nodes (fromId e)) (labelOf nodes (toId e)))
            None s]\<rparr>"


lemma flagged_fields [simp]:
  "bDistances (flagged nodes e s) = bDistances s"
  "bPrevious (flagged nodes e s) = bPrevious s"
  by (simp_all add: flagged_def)

section \<open>Invariants of the loops of bellmanFord\<close>










section \<open>The guarded predecessor walk\<close>









section \<open>Negative-cycle detection and propagation\<close>



lemma set_setAdd [simp]: "set (setAdd xs x) = insert x (set xs)"
  by (auto simp: setAdd_def)










section \<open>Order of the number model\<close>


lemma js_le_refl [simp]: "js_le a a"
  by (simp add: js_le_def)



section \<open>Recorded distances never increase\<close>

definition mapLe :: "(string \<Rightarrow> jsnum option) \<Rightarrow> (string \<Rightarrow> jsnum option) \<Rightarrow> bool" where
  "mapLe m' m = (\<forall>v a. m v = Some a \<longrightarrow> (\<exists>b. m' v = Some b \<and> js_le b a))"




lemma mapLe_refl [simp]: "mapLe m m"
  by (simp add: mapLe_def)









lemma snapshot_distances [simp]: "distances (snapshot t m cur s) = Some (dDistances s)"
  by (simp add: snapshot_def)

lemma bSnapshot_distances [simp]: "distances (bSnapshot t m cur s) = Some (bDistances s)"
  by (simp add: bSnapshot_def)

subsection \<open>dijkstra\<close>








subsection \<open>bellmanFord\<close>


















section \<open>Walks along the directed edges\<close>

fun walkOk :: "string \<Rightarrow> directedEdge list \<Rightarrow> string \<Rightarrow> bool" where
  "walkOk u [] v = (u = v)"
| "walkOk u (e # p) v = (fromId e = u \<and> walkOk (toId e) p v)"

definition weightOf :: "directedEdge list \<Rightarrow> real" where
  "weightOf p = sum_list (map dweight p)"

definition inside :: "string set \<Rightarrow> directedEdge list \<Rightarrow> bool" where
  "inside ids p = (\<forall>e \<in> set p. toId e \<in> ids)"

lemma weightOf_simps [simp]:
  "weightOf [] = 0" "weightOf (e # p) = dweight e + weightOf p"
  "weightOf (p @ q) = weightOf p + weightOf q"
  by (simp_all add: weightOf_def)

lemma inside_simps [simp]:
  "inside ids []" "inside ids (e # p) = (toId e \<in> ids \<and> inside ids p)"
  "inside ids (p @ q) = (inside ids p \<and> inside ids q)"
  by (auto simp: inside_def)

lemma walkOk_snoc [simp]: "walkOk u (p @ [e]) v = (walkOk u p (fromId e) \<and> toId e = v)"
  by (induction p arbitrary: u) auto



section \<open>Distance maps\<close>









section \<open>The relaxation passes of bellmanFord\<close>





section \<open>The source vertex in bellmanFord\<close>






subsection \<open>Looking up a reconstructed path\<close>





section \<open>The source vertex in dijkstra\<close>







subsection \<open>Looking up a reconstructed path\<close>





section \<open>Distances that are finite or \<open>Infinity\<close>\<close>

definition ext :: "jsnum \<Rightarrow> bool" where
  "ext x = (x = PInf \<or> (\<exists>a. x = Fin a))"

lemma ext_simps [simp]: "ext PInf" "ext (Fin a)" "\<not> ext NInf" "\<not> ext NaN"
  by (simp_all add: ext_def)







section \<open>The distance matrix of floydWarshall on its own\<close>








subsection \<open>Cells\<close>


definition mle :: "nat \<Rightarrow> jsnum list list \<Rightarrow> jsnum list list \<Rightarrow> bool" where
  "mle n d' d = (\<forall>i < n. \<forall>j < n. js_le (d' ! i ! j) (d ! i ! j))"

lemma mle_refl [simp]: "mle n d d"
  by (simp add: mle_def)










section \<open>Paths in a distance matrix\<close>







subsection \<open>Every finite cell is the weight of a path\<close>






section \<open>The matrix of the init step\<close>








section \<open>The diagonal of floydWarshall\<close>






section \<open>The reference vertex of floydWarshall\<close>
















section \<open>The priority queue, with finite priorities\<close>


definition finitePriorities :: "item list \<Rightarrow> bool" where
  "finitePriorities q = (\<forall>it \<in> set q. \<exists>a. snd it = Fin a)"

lemma js_le_Fin [simp]: "js_le (Fin a) (Fin b) = (a \<le> b)"
  by (auto simp: js_le_def)



lemma finitePriorities_insortItem:
  "finitePriorities (insortItem x ys) = finitePriorities (x # ys)"
  by (simp add: finitePriorities_def set_insortItem)







section \<open>The queue of dijkstra against the distances\<close>











section \<open>dijkstra on non-negative weights\<close>

definition directed :: "edge \<Rightarrow> directedEdge" where
  "directed e = \<lparr>fromId = nodeId (efrom e), toId = nodeId (eto e), dweight = weight e\<rparr>"


lemma directed_simps [simp]:
  "fromId (directed e) = nodeId (efrom e)" "toId (directed e) = nodeId (eto e)"
  "dweight (directed e) = weight e"
  by (simp_all add: directed_def)














section \<open>What dijkstra returns on non-negative weights\<close>


section \<open>What the passes of bellmanFord reach\<close>










lemma inside_snoc: "inside ids (p @ [e]) = (inside ids p \<and> toId e \<in> ids)"
  by (auto simp: inside_def)







section \<open>dijkstra and bellmanFord on non-negative weights\<close>






end
